theory Spec2Isabelle
  imports Complex_Main
begin

section \<open>Data model (types.ts)\<close>

text \<open>
  The interfaces \<^verbatim>\<open>Dialogue\<close> and \<^verbatim>\<open>Scene\<close> of \<^verbatim>\<open>types.ts\<close>. The fields \<^verbatim>\<open>id\<close> and
  \<^verbatim>\<open>text\<close> are renamed (\<open>dialogue_id\<close>, \<open>scene_id\<close>, \<open>dialogue_text\<close>) because the plain
  names are taken in Isabelle. An optional field is an \<open>option\<close>; the integer \<^verbatim>\<open>order\<close>
  is an \<open>int\<close>, the \<^verbatim>\<open>duration\<close> in seconds a real. A JavaScript string is
  a sequence of code units, modelled as a \<open>string\<close>; \<open>length\<close> plays the part of
  \<^verbatim>\<open>.length\<close>.
\<close>

record dialogue =
  dialogue_id :: string
  characterId :: string
  dialogue_text :: string
  emotion :: string
  audioUrl :: "string option"
  isGeneratingAudio :: bool

record scene =
  scene_id :: string
  order :: int
  description :: string
  imagePrompt :: string
  imageUrl :: "string option"
  dialogues :: "dialogue list"
  isGeneratingImage :: bool
  duration :: "real option"

text \<open>
  JavaScript truthiness of an optional string (\<^verbatim>\<open>dialogue.audioUrl && ...\<close>,
  \<^verbatim>\<open>!currentScene?.imageUrl\<close>): \<^verbatim>\<open>undefined\<close> and the empty string are falsy.
\<close>

definition truthy :: "string option \<Rightarrow> bool" where
  "truthy u = (case u of None \<Rightarrow> False | Some v \<Rightarrow> v \<noteq> [])"

section \<open>The Player component: state and refs\<close>

text \<open>
  The four \<^verbatim>\<open>useState\<close> cells of \<^verbatim>\<open>Player\<close> and the refs the sequencing, rendering and
  recording code reads and writes. A ref that holds an object is modelled by whether it
  is non-null; \<open>mediaRecorderRef\<close> also carries the recorder's \<^verbatim>\<open>state\<close>
  (\<^verbatim>\<open>'inactive'\<close> or \<^verbatim>\<open>'recording'\<close>; the code never pauses a recorder). \<open>downloads\<close>
  counts the files handed to the browser by \<^verbatim>\<open>recorder.onstop\<close>. Timestamps are
  JavaScript numbers, taken here as reals.
\<close>

datatype recorder_state = Inactive | Recording

record player =
  currentSceneIndex :: nat
  currentDialogueIndex :: nat
  isPlaying :: bool
  isRecording :: bool
  canvasRef :: bool
  audioRef :: bool
  startTimeRef :: real
  mediaRecorderRef :: "recorder_state option"
  audioContextRef :: bool
  destinationRef :: bool
  sourceNodeRef :: bool
  downloads :: nat

section \<open>Transport controls\<close>

text \<open>
  A control is a \<^verbatim>\<open><button disabled={...} onClick={...}>\<close>: a click on a disabled
  button runs no handler.
\<close>

definition click :: "(player \<Rightarrow> bool) \<Rightarrow> (player \<Rightarrow> player) \<Rightarrow> player \<Rightarrow> player" where
  "click disabled onClick s = (if disabled s then s else onClick s)"

text \<open>The handler of the rewind button (\<^verbatim>\<open>SkipBack\<close>).\<close>

definition rewindToStart :: "player \<Rightarrow> player" where
  "rewindToStart s = s\<lparr>currentSceneIndex := 0, currentDialogueIndex := 0\<rparr>"

text \<open>The handler of the play/pause button: \<^verbatim>\<open>setIsPlaying(!isPlaying)\<close>.\<close>

definition togglePlay :: "player \<Rightarrow> player" where
  "togglePlay s = s\<lparr>isPlaying := \<not> isPlaying s\<rparr>"

text \<open>
  The handler of the next-scene button (\<^verbatim>\<open>SkipForward\<close>). \<^verbatim>\<open>scenes.length - 1\<close> is
  \<open>-1\<close> for an empty list, hence the comparison over \<open>int\<close>.
\<close>

definition nextScene :: "scene list \<Rightarrow> player \<Rightarrow> player" where
  "nextScene scenes s =
     (if int (currentSceneIndex s) < int (length scenes) - 1
      then s\<lparr>currentSceneIndex := currentSceneIndex s + 1\<rparr>
      else s)"

definition click_rewind :: "player \<Rightarrow> player" where
  "click_rewind = click isRecording rewindToStart"

definition click_playPause :: "player \<Rightarrow> player" where
  "click_playPause = click isRecording togglePlay"

definition click_nextScene :: "scene list \<Rightarrow> player \<Rightarrow> player" where
  "click_nextScene scenes = click isRecording (nextScene scenes)"

section \<open>Recorder\<close>

text \<open>
  \<^verbatim>\<open>recorder.onstop\<close>: the download is triggered and both flags are cleared.
\<close>

definition recorder_onstop :: "player \<Rightarrow> player" where
  "recorder_onstop s = s\<lparr>downloads := downloads s + 1, isRecording := False, isPlaying := False\<rparr>"

text \<open>
  \<^verbatim>\<open>stopRecording\<close>: a recorder that exists and is not inactive is stopped; the
  \<^verbatim>\<open>stop\<close> event it then delivers runs \<open>recorder_onstop\<close>.
\<close>

definition stopRecording :: "player \<Rightarrow> player" where
  "stopRecording s =
     (case mediaRecorderRef s of
        Some Recording \<Rightarrow> recorder_onstop (s\<lparr>mediaRecorderRef := Some Inactive\<rparr>)
      | _ \<Rightarrow> s)"

text \<open>
  The browser calls made while a recording session is set up. Each may throw; which ones
  do is a parameter of the model (\<open>capture_api\<close>). \<open>NullDestination\<close> is the
  \<^verbatim>\<open>TypeError\<close> of \<^verbatim>\<open>destinationRef.current!.stream\<close> when the ref is still null.
\<close>

datatype api_call =
    NewAudioContext
  | CreateMediaStreamDestination
  | CreateMediaElementSource
  | ConnectSource
  | CaptureStream
  | NewMediaStream
  | NewMediaRecorder
  | RecorderStart

datatype capture_error = Thrown api_call | NullDestination

type_synonym capture_api = "api_call \<Rightarrow> bool"

text \<open>
  \<^verbatim>\<open>setupAudioContext\<close>: the audio graph is built once, ref by ref; an exception leaves
  the refs already assigned in place.
\<close>

definition setupAudioContext :: "capture_api \<Rightarrow> player \<Rightarrow> (capture_error + unit) \<times> player" where
  "setupAudioContext api s =
     (if \<not> audioContextRef s \<and> audioRef s then
        if api NewAudioContext then (Inl (Thrown NewAudioContext), s)
        else let s1 = s\<lparr>audioContextRef := True\<rparr> in
          if api CreateMediaStreamDestination then (Inl (Thrown CreateMediaStreamDestination), s1)
          else let s2 = s1\<lparr>destinationRef := True\<rparr> in
            if api CreateMediaElementSource then (Inl (Thrown CreateMediaElementSource), s2)
            else let s3 = s2\<lparr>sourceNodeRef := True\<rparr> in
              if api ConnectSource then (Inl (Thrown ConnectSource), s3)
              else (Inr (), s3)
      else (Inr (), s))"

text \<open>
  \<^verbatim>\<open>startRecording\<close>. The function has no \<^verbatim>\<open>try\<close>: an exception of a browser call
  leaves the function at once (\<open>Inl\<close>), and the state updates issued before it
  (\<^verbatim>\<open>setIsRecording(true)\<close>, the cursor reset) stay queued and are applied by React.
  The result pairs the outcome with the component's state after the handler. The final
  \<^verbatim>\<open>resume()\<close> of a suspended audio context returns a promise and changes nothing
  modelled here.
\<close>

definition startRecording :: "capture_api \<Rightarrow> player \<Rightarrow> (capture_error + unit) \<times> player" where
  "startRecording api s =
     (if \<not> canvasRef s then (Inr (), s)
      else let s1 = s\<lparr>isRecording := True, currentSceneIndex := 0, currentDialogueIndex := 0\<rparr> in
        case setupAudioContext api s1 of
          (Inl e, s2) \<Rightarrow> (Inl e, s2)
        | (Inr _, s2) \<Rightarrow>
            if api CaptureStream then (Inl (Thrown CaptureStream), s2)
            else if \<not> destinationRef s2 then (Inl NullDestination, s2)
            else if api NewMediaStream then (Inl (Thrown NewMediaStream), s2)
            else if api NewMediaRecorder then (Inl (Thrown NewMediaRecorder), s2)
            else let s3 = s2\<lparr>mediaRecorderRef := Some Inactive\<rparr> in
              if api RecorderStart then (Inl (Thrown RecorderStart), s3)
              else (Inr (), s3\<lparr>mediaRecorderRef := Some Recording, isPlaying := True\<rparr>))"

text \<open>The record button is disabled while recording or playing.\<close>

definition click_startRecording :: "capture_api \<Rightarrow> player \<Rightarrow> (capture_error + unit) \<times> player" where
  "click_startRecording api s =
     (if isRecording s \<or> isPlaying s then (Inr (), s) else startRecording api s)"

section \<open>Playback sequencer\<close>

text \<open>
  What \<^verbatim>\<open>playNextDialogue\<close> leaves pending. Every callback is a closure of the render
  in which the effect ran: it reads \<^verbatim>\<open>isPlaying\<close>, \<^verbatim>\<open>currentSceneIndex\<close> of that render
  (the snapshot carried by the constructor), while its functional updates
  (\<^verbatim>\<open>prev => prev + 1\<close>) act on the state at the time it fires.
\<close>

datatype pending =
    SceneTimer player
  | DwellTimer nat player
  | AudioPlay string player

text \<open>The dwell time of a line without audio, in milliseconds.\<close>

definition dwell :: "string \<Rightarrow> nat" where
  "dwell txt = max 2000 (length txt * 50)"

definition playNextDialogue :: "scene list \<Rightarrow> player \<Rightarrow> pending option" where
  "playNextDialogue scenes s =
     (if length scenes \<le> currentSceneIndex s then None
      else let currentScene = scenes ! currentSceneIndex s in
        if length (dialogues currentScene) \<le> currentDialogueIndex s then Some (SceneTimer s)
        else let d = dialogues currentScene ! currentDialogueIndex s in
          if truthy (audioUrl d) \<and> audioRef s then Some (AudioPlay (the (audioUrl d)) s)
          else Some (DwellTimer (dwell (dialogue_text d)) s))"

text \<open>
  \<^verbatim>\<open>handleDialogueEnd\<close>, as the closure of the render with state \<open>snap\<close>, applied to
  the current state.
\<close>

definition handleDialogueEnd :: "player \<Rightarrow> player \<Rightarrow> player" where
  "handleDialogueEnd snap s =
     (if \<not> isPlaying snap then s
      else s\<lparr>currentDialogueIndex := currentDialogueIndex s + 1\<rparr>)"

text \<open>The callback of the 1000 ms timer set when a scene has no line left.\<close>

definition sceneTimeout :: "scene list \<Rightarrow> player \<Rightarrow> player \<Rightarrow> player" where
  "sceneTimeout scenes snap s =
     (if int (currentSceneIndex snap) < int (length scenes) - 1
      then s\<lparr>currentSceneIndex := currentSceneIndex s + 1, currentDialogueIndex := 0\<rparr>
      else stopRecording (s\<lparr>isPlaying := False\<rparr>))"

text \<open>
  A pending callback fires. A timer runs the closure it was given. The audio element's
  \<^verbatim>\<open>ended\<close> event runs the \<^verbatim>\<open>onEnded\<close> handler of the latest render, whose snapshot is
  the current state; a rejected \<^verbatim>\<open>play()\<close> runs the handler of the render that started
  it.
\<close>

fun fire :: "scene list \<Rightarrow> pending \<Rightarrow> player \<Rightarrow> player" where
  "fire scenes (SceneTimer snap) s = sceneTimeout scenes snap s"
| "fire scenes (DwellTimer ms snap) s = handleDialogueEnd snap s"
| "fire scenes (AudioPlay url snap) s = handleDialogueEnd s s"

definition audioRejected :: "pending \<Rightarrow> player \<Rightarrow> player" where
  "audioRejected p s = (case p of AudioPlay url snap \<Rightarrow> handleDialogueEnd snap s | _ \<Rightarrow> s)"

text \<open>
  The sequencing effect (\<^verbatim>\<open>useEffect\<close> on the two indices and \<^verbatim>\<open>isPlaying\<close>): while
  playing it calls \<^verbatim>\<open>playNextDialogue\<close>.
\<close>

definition sequencer_effect :: "scene list \<Rightarrow> player \<Rightarrow> pending option" where
  "sequencer_effect scenes s = (if isPlaying s then playNextDialogue scenes s else None)"

text \<open>
  An uninterrupted run: the effect schedules a callback, the callback fires (audio
  plays to its end), the state changes and the effect runs again. The result is the
  list of cursor positions whose line was started, and the state in which nothing is
  pending any more.
\<close>

function play_through :: "scene list \<Rightarrow> player \<Rightarrow> (nat \<times> nat) list \<times> player" where
  "play_through scenes s =
     (case sequencer_effect scenes s of
        None \<Rightarrow> ([], s)
      | Some p \<Rightarrow>
          (let r = play_through scenes (fire scenes p s) in
           case p of
             SceneTimer snap \<Rightarrow> r
           | _ \<Rightarrow> ((currentSceneIndex s, currentDialogueIndex s) # fst r, snd r)))"
  by pat_completeness auto
termination
proof (relation "measures
    [\<lambda>(scenes, s). if isPlaying s then 1 else 0,
     \<lambda>(scenes, s). length scenes - currentSceneIndex s,
     \<lambda>(scenes, s). Suc (length (dialogues (scenes ! currentSceneIndex s))) - currentDialogueIndex s]")
  show "wf (measures
    [\<lambda>(scenes, s). if isPlaying s then 1 else 0,
     \<lambda>(scenes, s). length scenes - currentSceneIndex s,
     \<lambda>(scenes, s). Suc (length (dialogues (scenes ! currentSceneIndex s))) - currentDialogueIndex s])"
    by simp
next
  fix scenes :: "scene list" and s :: player and p :: pending
  assume eff: "sequencer_effect scenes s = Some p"
  then have playing: "isPlaying s" and pn: "playNextDialogue scenes s = Some p"
    by (auto simp: sequencer_effect_def split: if_splits)
  from pn have inr: "currentSceneIndex s < length scenes"
    by (auto simp: playNextDialogue_def split: if_splits)
  show "((scenes, fire scenes p s), (scenes, s)) \<in> measures
    [\<lambda>(scenes, s). if isPlaying s then 1 else 0,
     \<lambda>(scenes, s). length scenes - currentSceneIndex s,
     \<lambda>(scenes, s). Suc (length (dialogues (scenes ! currentSceneIndex s))) - currentDialogueIndex s]"
  proof (cases p)
    case (SceneTimer snap)
    with pn have snap: "snap = s"
      by (auto simp: playNextDialogue_def Let_def split: if_splits)
    show ?thesis
    proof (cases "int (currentSceneIndex s) < int (length scenes) - 1")
      case True
      then have "length scenes - Suc (currentSceneIndex s) < length scenes - currentSceneIndex s"
        by linarith
      with True SceneTimer snap playing show ?thesis
        by (simp add: sceneTimeout_def)
    next
      case False
      with SceneTimer snap playing show ?thesis
        by (simp add: sceneTimeout_def stopRecording_def recorder_onstop_def
            split: option.splits recorder_state.splits)
    qed
  next
    case (DwellTimer ms snap)
    with pn have "snap = s" and "currentDialogueIndex s < length (dialogues (scenes ! currentSceneIndex s))"
      by (auto simp: playNextDialogue_def Let_def split: if_splits)
    with DwellTimer playing show ?thesis
      by (simp add: handleDialogueEnd_def)
  next
    case (AudioPlay url snap)
    with pn have "currentDialogueIndex s < length (dialogues (scenes ! currentSceneIndex s))"
      by (auto simp: playNextDialogue_def Let_def split: if_splits)
    with AudioPlay playing show ?thesis
      by (simp add: handleDialogueEnd_def)
  qed
qed

text \<open>The defining equation is unfolded by hand, one step at a time.\<close>

declare play_through.simps [simp del]

section \<open>Renderer: animation clock and transform\<close>

text \<open>
  The first lines of the animation-frame callback \<^verbatim>\<open>render\<close>: the time origin
  \<open>startTimeRef\<close> is assigned while it is still falsy (\<open>0\<close>), and \<^verbatim>\<open>progress\<close> is the
  time since then. The result is the component with its ref, and \<^verbatim>\<open>progress\<close>.
\<close>

definition render :: "real \<Rightarrow> player \<Rightarrow> player \<times> real" where
  "render timestamp s =
     (let s' = (if startTimeRef s = 0 then s\<lparr>startTimeRef := timestamp\<rparr> else s)
      in (s', timestamp - startTimeRef s'))"

text \<open>
  The zoom and pan drawn for a given \<^verbatim>\<open>progress\<close>. \<^verbatim>\<open>Math.sin\<close> on doubles is taken as
  the real sine.
\<close>

definition transform_scale :: "real \<Rightarrow> real" where
  "transform_scale progress = 1.0 + (sin (progress * 0.0002) * 0.05)"

definition transform_panX :: "real \<Rightarrow> real" where
  "transform_panX progress = sin (progress * 0.0001) * 20"

section \<open>Subtitle word wrap\<close>

text \<open>\<^verbatim>\<open>text.split(' ')\<close>: the pieces between single spaces, empty pieces included.\<close>

fun split_space :: "string \<Rightarrow> string list" where
  "split_space [] = [[]]"
| "split_space (c # cs) =
     (if c = CHR '' '' then [] # split_space cs
      else (case split_space cs of
              [] \<Rightarrow> [[c]]
            | w # ws \<Rightarrow> (c # w) # ws))"

text \<open>
  The loop of \<^verbatim>\<open>wrapText\<close> over the words still to place, with the loop counter
  \<open>n\<close>, the current \<open>line\<close> and the current \<open>y\<close>. The result is the list of
  \<^verbatim>\<open>ctx.fillText(line, x, y)\<close> calls, in order; the last one is the call after the loop.
  \<open>measureText\<close> stands for \<^verbatim>\<open>ctx.measureText(_).width\<close>.
\<close>

fun wrap_loop ::
  "(string \<Rightarrow> real) \<Rightarrow> real \<Rightarrow> real \<Rightarrow> real \<Rightarrow> string list \<Rightarrow> nat \<Rightarrow> string \<Rightarrow> real
     \<Rightarrow> (string \<times> real \<times> real) list" where
  "wrap_loop measureText x maxWidth lineHeight [] n line y = [(line, x, y)]"
| "wrap_loop measureText x maxWidth lineHeight (w # ws) n line y =
     (let testLine = line @ w @ '' '';
          testWidth = measureText testLine
      in if testWidth > maxWidth \<and> n > 0
         then (line, x, y) # wrap_loop measureText x maxWidth lineHeight ws (Suc n) (w @ '' '') (y + lineHeight)
         else wrap_loop measureText x maxWidth lineHeight ws (Suc n) testLine y)"

definition wrapText ::
  "(string \<Rightarrow> real) \<Rightarrow> string \<Rightarrow> real \<Rightarrow> real \<Rightarrow> real \<Rightarrow> real \<Rightarrow> (string \<times> real \<times> real) list" where
  "wrapText measureText txt x y maxWidth lineHeight =
     wrap_loop measureText x maxWidth lineHeight (split_space txt) 0 [] y"

text \<open>The line that holds the words \<open>g\<close>: each word followed by one space.\<close>

definition line_of :: "string list \<Rightarrow> string" where
  "line_of g = concat (map (\<lambda>w. w @ '' '') g)"

text \<open>
  The same loop, returning for each emitted line the words on it (\<open>g\<close> holds the words
  of the current line). It is used to state which words share a line.
\<close>

fun wrap_groups ::
  "(string \<Rightarrow> real) \<Rightarrow> real \<Rightarrow> string list \<Rightarrow> nat \<Rightarrow> string \<Rightarrow> string list \<Rightarrow> string list list" where
  "wrap_groups measureText maxWidth [] n line g = [g]"
| "wrap_groups measureText maxWidth (w # ws) n line g =
     (if measureText (line @ w @ '' '') > maxWidth \<and> n > 0
      then g # wrap_groups measureText maxWidth ws (Suc n) (w @ '' '') [w]
      else wrap_groups measureText maxWidth ws (Suc n) (line @ w @ '' '') (g @ [w]))"

text \<open>
  A width function is monotone in string extension when adding text on either side
  never makes a string narrower.
\<close>

definition monotone_width :: "(string \<Rightarrow> real) \<Rightarrow> bool" where
  "monotone_width measureText =
     (\<forall>a b. measureText a \<le> measureText (a @ b) \<and> measureText b \<le> measureText (a @ b))"

section \<open>Concrete inputs\<close>

text \<open>The component right after mounting: the initial \<^verbatim>\<open>useState\<close> and \<^verbatim>\<open>useRef\<close> values,
  with the canvas and the audio element attached.\<close>

definition initial_player :: player where
  "initial_player =
     \<lparr>currentSceneIndex = 0, currentDialogueIndex = 0, isPlaying = False, isRecording = False,
      canvasRef = True, audioRef = True, startTimeRef = 0, mediaRecorderRef = None,
      audioContextRef = False, destinationRef = False, sourceNodeRef = False, downloads = 0\<rparr>"

definition silent_line :: "string \<Rightarrow> dialogue" where
  "silent_line txt =
     \<lparr>dialogue_id = ''d'', characterId = ''c'', dialogue_text = txt, emotion = ''calm'',
      audioUrl = None, isGeneratingAudio = False\<rparr>"

definition scene_with :: "int \<Rightarrow> dialogue list \<Rightarrow> scene" where
  "scene_with k ds =
     \<lparr>scene_id = ''s'', order = k, description = ''a street'', imagePrompt = ''a street'',
      imageUrl = Some ''blob:img'', dialogues = ds, isGeneratingImage = False, duration = None\<rparr>"

text \<open>Two scenes with two and one lines, stored in ascending \<open>order\<close>.\<close>

definition two_scenes :: "scene list" where
  "two_scenes =
     [scene_with 0 [silent_line ''Another night.'', silent_line ''It is never simple.''],
      scene_with 1 [silent_line ''The usual?'']]"

text \<open>The same two scenes stored with the later one first.\<close>

definition two_scenes_swapped :: "scene list" where
  "two_scenes_swapped =
     [scene_with 1 [silent_line ''The usual?''],
      scene_with 0 [silent_line ''Another night.'', silent_line ''It is never simple.'']]"

text \<open>Two scenes stored with the later one first, where the first has no line.\<close>

definition silent_scene_first :: "scene list" where
  "silent_scene_first = [scene_with 1 [], scene_with 0 [silent_line ''The usual?'']]"

section \<open>Facts shared by the proofs\<close>

lemma setupAudioContext_frame:
  assumes "setupAudioContext api s = (r, s2)"
  shows "isRecording s2 = isRecording s \<and> currentSceneIndex s2 = currentSceneIndex s
         \<and> currentDialogueIndex s2 = currentDialogueIndex s \<and> isPlaying s2 = isPlaying s
         \<and> startTimeRef s2 = startTimeRef s"
  using assms by (auto simp: setupAudioContext_def Let_def split: if_splits)

lemma startRecording_startTimeRef:
  "startTimeRef (snd (startRecording api s)) = startTimeRef s"
proof -
  obtain r s2 where su: "setupAudioContext api
      (s\<lparr>isRecording := True, currentSceneIndex := 0, currentDialogueIndex := 0\<rparr>) = (r, s2)"
    by (cases "setupAudioContext api
      (s\<lparr>isRecording := True, currentSceneIndex := 0, currentDialogueIndex := 0\<rparr>)") auto
  from setupAudioContext_frame [OF su] have "startTimeRef s2 = startTimeRef s"
    by simp
  with su show ?thesis
    by (auto simp: startRecording_def Let_def split: sum.splits if_splits)
qed

lemma sceneTimeout_startTimeRef:
  "startTimeRef (sceneTimeout scenes snap s) = startTimeRef s"
  by (simp add: sceneTimeout_def stopRecording_def recorder_onstop_def
      split: option.splits recorder_state.splits)

lemma stopRecording_not_playing:
  "\<not> isPlaying (stopRecording (s\<lparr>isPlaying := False\<rparr>))"
  by (simp add: stopRecording_def recorder_onstop_def split: option.splits recorder_state.splits)

lemma play_through_paused:
  "\<not> isPlaying s \<Longrightarrow> play_through scenes s = ([], s)"
  by (subst play_through.simps) (simp add: sequencer_effect_def)

lemma play_through_from:
  "isPlaying s \<Longrightarrow> currentSceneIndex s < length scenes \<Longrightarrow>
   fst (play_through scenes s) =
     map (Pair (currentSceneIndex s))
       [currentDialogueIndex s ..< length (dialogues (scenes ! currentSceneIndex s))]
     @ concat (map (\<lambda>i. map (Pair i) [0 ..< length (dialogues (scenes ! i))])
         [Suc (currentSceneIndex s) ..< length scenes])
   \<and> \<not> isPlaying (snd (play_through scenes s))"
proof (induction scenes s rule: play_through.induct)
  case (1 scenes s)
  let ?si = "currentSceneIndex s" and ?di = "currentDialogueIndex s"
  let ?len = "length (dialogues (scenes ! ?si))"
  let ?rest = "\<lambda>k. concat (map (\<lambda>i. map (Pair i) [0 ..< length (dialogues (scenes ! i))])
         [k ..< length scenes])"
  from "1.prems" have playing: "isPlaying s" and inr: "?si < length scenes" by simp_all
  show ?case
  proof (cases "?di < ?len")
    case True
    define s' where "s' = s\<lparr>currentDialogueIndex := Suc ?di\<rparr>"
    have "\<exists>p. sequencer_effect scenes s = Some p \<and> (\<forall>snap. p \<noteq> SceneTimer snap)
        \<and> fire scenes p s = s'"
    proof (cases "truthy (audioUrl (dialogues (scenes ! ?si) ! ?di)) \<and> audioRef s")
      case True
      with \<open>?di < ?len\<close> playing inr show ?thesis
        by (simp add: sequencer_effect_def playNextDialogue_def Let_def handleDialogueEnd_def s'_def)
    next
      case False
      with \<open>?di < ?len\<close> playing inr show ?thesis
        by (simp add: sequencer_effect_def playNextDialogue_def Let_def handleDialogueEnd_def s'_def)
    qed
    then obtain p where eff: "sequencer_effect scenes s = Some p"
      and notscene: "\<forall>snap. p \<noteq> SceneTimer snap"
      and fire: "fire scenes p s = s'"
      by blast
    have s'p: "isPlaying s'" "currentSceneIndex s' < length scenes"
      "currentSceneIndex s' = ?si" "currentDialogueIndex s' = Suc ?di"
      using playing inr by (simp_all add: s'_def)
    from "1.IH" [OF eff] fire s'p
    have ih: "fst (play_through scenes s') = map (Pair ?si) [Suc ?di ..< ?len] @ ?rest (Suc ?si)"
      and fin: "\<not> isPlaying (snd (play_through scenes s'))"
      by simp_all
    have unf: "play_through scenes s =
        ((?si, ?di) # fst (play_through scenes s'), snd (play_through scenes s'))"
      using eff notscene fire
      by (subst play_through.simps) (cases p; simp add: Let_def)
    have "[?di ..< ?len] = ?di # [Suc ?di ..< ?len]"
      using True by (simp add: upt_conv_Cons)
    with unf ih fin show ?thesis by simp
  next
    case False
    then have nolines: "[?di ..< ?len] = []" by simp
    from False playing inr have eff: "sequencer_effect scenes s = Some (SceneTimer s)"
      by (simp add: sequencer_effect_def playNextDialogue_def Let_def)
    have unf: "play_through scenes s = play_through scenes (sceneTimeout scenes s s)"
      using eff by (subst play_through.simps) (simp add: Let_def)
    show ?thesis
    proof (cases "int ?si < int (length scenes) - 1")
      case True
      define s' where "s' = s\<lparr>currentSceneIndex := Suc ?si, currentDialogueIndex := 0\<rparr>"
      from True have st: "sceneTimeout scenes s s = s'"
        by (simp add: sceneTimeout_def s'_def)
      from True have more: "Suc ?si < length scenes" by linarith
      have s'p: "isPlaying s'" "currentSceneIndex s' = Suc ?si" "currentDialogueIndex s' = 0"
        using playing by (simp_all add: s'_def)
      from "1.IH" [OF eff] st s'p more
      have ih: "fst (play_through scenes s') =
          map (Pair (Suc ?si)) [0 ..< length (dialogues (scenes ! Suc ?si))] @ ?rest (Suc (Suc ?si))"
        and fin: "\<not> isPlaying (snd (play_through scenes s'))"
        by simp_all
      have "[Suc ?si ..< length scenes] = Suc ?si # [Suc (Suc ?si) ..< length scenes]"
        using more by (simp add: upt_conv_Cons)
      then have "?rest (Suc ?si) =
          map (Pair (Suc ?si)) [0 ..< length (dialogues (scenes ! Suc ?si))] @ ?rest (Suc (Suc ?si))"
        by simp
      with unf st ih fin show ?thesis
        unfolding nolines by simp
    next
      case False
      then have st: "sceneTimeout scenes s s = stopRecording (s\<lparr>isPlaying := False\<rparr>)"
        by (simp add: sceneTimeout_def)
      from False inr have last: "[Suc ?si ..< length scenes] = []" by simp
      have res: "play_through scenes s = ([], stopRecording (s\<lparr>isPlaying := False\<rparr>))"
        using unf st play_through_paused [OF stopRecording_not_playing] by simp
      show ?thesis
        unfolding nolines last res by (simp add: stopRecording_not_playing)
    qed
  qed
qed

lemma visited_scenes_sorted:
  "sorted is \<Longrightarrow> sorted (map fst (concat (map (\<lambda>i. map (Pair i) [0 ..< f i]) is)))"
proof (induction "is")
  case Nil
  then show ?case by simp
next
  case (Cons i "is")
  have "map fst (map (Pair i) [0 ..< f i]) = replicate (f i) i"
    by (simp add: comp_def map_replicate_const)
  moreover have "set (map fst (concat (map (\<lambda>i. map (Pair i) [0 ..< f i]) is))) \<subseteq> set is"
    by auto
  ultimately show ?case
    using Cons by (auto simp: sorted_append sorted_replicate)
qed

lemma visited_orders_sorted_conv:
  "sorted (map (\<lambda>p. g (fst p)) (concat (map (\<lambda>i. map (Pair i) [0 ..< f i]) is))) \<Longrightarrow>
   \<forall>i \<in> set is. 0 < f i \<Longrightarrow>
   sorted_wrt (\<lambda>i j. (g i :: int) \<le> g j) is"
proof (induction "is")
  case Nil
  then show ?case by simp
next
  case (Cons i "is")
  let ?rest = "concat (map (\<lambda>i. map (Pair i) [0 ..< f i]) is)"
  from Cons.prems(1)
  have tail: "sorted (map (\<lambda>p. g (fst p)) ?rest)"
    and cross: "\<forall>x \<in> set (map (Pair i) [0 ..< f i]). \<forall>y \<in> set ?rest. g (fst x) \<le> g (fst y)"
    by (auto simp: sorted_append)
  from Cons.prems(2) have pos: "0 < f i" and posr: "\<forall>j \<in> set is. 0 < f j"
    by simp_all
  from pos have here: "(i, 0) \<in> set (map (Pair i) [0 ..< f i])"
    by auto
  have "g i \<le> g j" if "j \<in> set is" for j
  proof -
    from that posr have "0 < f j" by blast
    then have "(j, 0) \<in> set (map (Pair j) [0 ..< f j])" by auto
    with that have "(j, 0) \<in> set ?rest" by auto
    with cross here show ?thesis by fastforce
  qed
  moreover from Cons.IH [OF tail posr] have "sorted_wrt (\<lambda>i j. g i \<le> g j) is" .
  ultimately show ?case by simp
qed

lemma split_space_nonempty: "split_space cs \<noteq> []"
  by (induction cs) (auto split: list.splits)

lemma line_of_snoc: "line_of (g @ [w]) = line_of g @ w @ '' ''"
  by (simp add: line_of_def)

lemma line_of_single: "line_of [w] = w @ '' ''"
  by (simp add: line_of_def)

lemma wrap_loop_lines:
  "line = line_of g \<Longrightarrow>
   map fst (wrap_loop m x mw lh ws n line y) = map line_of (wrap_groups m mw ws n line g)"
proof (induction ws arbitrary: n line y g)
  case Nil
  then show ?case by simp
next
  case (Cons w ws)
  have a: "map fst (wrap_loop m x mw lh ws (Suc n) (w @ '' '') (y + lh))
      = map line_of (wrap_groups m mw ws (Suc n) (w @ '' '') [w])"
    by (rule Cons.IH) (simp add: line_of_single)
  have b: "map fst (wrap_loop m x mw lh ws (Suc n) (line @ w @ '' '') y)
      = map line_of (wrap_groups m mw ws (Suc n) (line @ w @ '' '') (g @ [w]))"
    by (rule Cons.IH) (simp add: line_of_snoc Cons.prems)
  show ?case
    using a b Cons.prems by (simp add: Let_def)
qed

lemma wrap_groups_concat:
  "concat (wrap_groups m mw ws n line g) = g @ ws"
  by (induction ws arbitrary: n line g) simp_all

lemma wrap_groups_head:
  "\<exists>zs rest. wrap_groups m mw ws n line g = (g @ zs) # rest"
proof (induction ws arbitrary: n line g)
  case Nil
  then show ?case by simp
next
  case (Cons w ws)
  show ?case
  proof (cases "m (line @ w @ '' '') > mw \<and> n > 0")
    case True
    then show ?thesis by simp
  next
    case False
    from Cons.IH [of "Suc n" "line @ w @ '' ''" "g @ [w]"]
    obtain zs rest where "wrap_groups m mw ws (Suc n) (line @ w @ '' '') (g @ [w]) = ((g @ [w]) @ zs) # rest"
      by blast
    with False show ?thesis by auto
  qed
qed

lemma wrap_groups_fit:
  "line = line_of g \<Longrightarrow> (n = 0 \<longleftrightarrow> g = []) \<Longrightarrow> m line \<le> mw \<or> length g \<le> 1 \<Longrightarrow>
   ws \<noteq> [] \<or> 0 < n \<Longrightarrow>
   \<forall>grp \<in> set (wrap_groups m mw ws n line g).
      grp \<noteq> [] \<and> (m (line_of grp) \<le> mw \<or> length grp = 1)"
proof (induction ws arbitrary: n line g)
  case Nil
  then have "g \<noteq> []" by simp
  with Nil show ?case by (cases g) auto
next
  case (Cons w ws)
  show ?case
  proof (cases "m (line @ w @ '' '') > mw \<and> n > 0")
    case True
    have rest: "\<forall>grp \<in> set (wrap_groups m mw ws (Suc n) (w @ '' '') [w]).
        grp \<noteq> [] \<and> (m (line_of grp) \<le> mw \<or> length grp = 1)"
      by (rule Cons.IH) (simp_all add: line_of_single)
    from True Cons.prems have "g \<noteq> []" by simp
    moreover from Cons.prems \<open>g \<noteq> []\<close> have "m (line_of g) \<le> mw \<or> length g = 1"
      by (cases g) auto
    ultimately show ?thesis
      using True rest by simp
  next
    case False
    have inv: "m (line @ w @ '' '') \<le> mw \<or> length (g @ [w]) \<le> 1"
      using False Cons.prems by auto
    have "\<forall>grp \<in> set (wrap_groups m mw ws (Suc n) (line @ w @ '' '') (g @ [w])).
        grp \<noteq> [] \<and> (m (line_of grp) \<le> mw \<or> length grp = 1)"
      by (rule Cons.IH) (use inv Cons.prems in \<open>simp_all add: line_of_snoc\<close>)
    with False show ?thesis by auto
  qed
qed

lemma wrap_groups_greedy:
  "line = line_of g \<Longrightarrow>
   \<forall>k. Suc k < length (wrap_groups m mw ws n line g) \<longrightarrow>
     mw < m (line_of (wrap_groups m mw ws n line g ! k @ [hd (wrap_groups m mw ws n line g ! Suc k)]))"
proof (induction ws arbitrary: n line g)
  case Nil
  then show ?case by simp
next
  case (Cons w ws)
  show ?case
  proof (cases "m (line @ w @ '' '') > mw \<and> n > 0")
    case True
    let ?rest = "wrap_groups m mw ws (Suc n) (w @ '' '') [w]"
    have ih: "\<forall>k. Suc k < length ?rest \<longrightarrow> mw < m (line_of (?rest ! k @ [hd (?rest ! Suc k)]))"
      by (rule Cons.IH) (simp add: line_of_single)
    obtain zs r where hd: "?rest = ([w] @ zs) # r"
      using wrap_groups_head by blast
    have out: "wrap_groups m mw (w # ws) n line g = g # ?rest"
      using True by simp
    show ?thesis
    proof (intro allI impI)
      fix k
      assume k: "Suc k < length (wrap_groups m mw (w # ws) n line g)"
      show "mw < m (line_of (wrap_groups m mw (w # ws) n line g ! k
               @ [hd (wrap_groups m mw (w # ws) n line g ! Suc k)]))"
      proof (cases k)
        case 0
        have "hd (?rest ! 0) = w" by (subst hd) simp
        with 0 True Cons.prems show ?thesis
          unfolding out by (simp add: line_of_snoc)
      next
        case (Suc j)
        with k ih show ?thesis unfolding out by simp
      qed
    qed
  next
    case False
    have "\<forall>k. Suc k < length (wrap_groups m mw ws (Suc n) (line @ w @ '' '') (g @ [w])) \<longrightarrow>
       mw < m (line_of (wrap_groups m mw ws (Suc n) (line @ w @ '' '') (g @ [w]) ! k
               @ [hd (wrap_groups m mw ws (Suc n) (line @ w @ '' '') (g @ [w]) ! Suc k)]))"
      by (rule Cons.IH) (simp add: line_of_snoc Cons.prems)
    with False show ?thesis by auto
  qed
qed

lemma wrap_loop_length:
  "length (wrap_loop m x mw lh ws n line y) = length (wrap_groups m mw ws n line g)"
  by (induction ws arbitrary: n line y g) (simp_all add: Let_def)

lemma wrap_loop_x:
  "map (fst \<circ> snd) (wrap_loop m x mw lh ws n line y)
     = replicate (length (wrap_loop m x mw lh ws n line y)) x"
  by (induction ws arbitrary: n line y) (simp_all add: Let_def)

lemma wrap_loop_y:
  "map (snd \<circ> snd) (wrap_loop m x mw lh ws n line y)
     = map (\<lambda>k. y + real k * lh) [0 ..< length (wrap_loop m x mw lh ws n line y)]"
proof (induction ws arbitrary: n line y)
  case Nil
  then show ?case by simp
next
  case (Cons w ws)
  show ?case
  proof (cases "m (line @ w @ '' '') > mw \<and> n > 0")
    case True
    let ?r = "wrap_loop m x mw lh ws (Suc n) (w @ '' '') (y + lh)"
    have out: "wrap_loop m x mw lh (w # ws) n line y = (line, x, y) # ?r"
      using True by (simp add: Let_def)
    have "[0 ..< Suc (length ?r)] = 0 # map Suc [0 ..< length ?r]"
      by (simp add: upt_conv_Cons map_Suc_upt del: upt_Suc)
    then have "map (\<lambda>k. y + real k * lh) [0 ..< length ((line, x, y) # ?r)]
        = y # map (\<lambda>k. (y + lh) + real k * lh) [0 ..< length ?r]"
      by (simp add: algebra_simps del: upt_Suc)
    with Cons.IH [of "Suc n" "w @ '' ''" "y + lh"] show ?thesis
      unfolding out by simp
  next
    case False
    with Cons.IH [of "Suc n" "line @ w @ '' ''" y] show ?thesis
      by (auto simp: Let_def)
  qed
qed

lemma monotone_width_member:
  assumes mono: "monotone_width m" and w: "w \<in> set g"
  shows "m (w @ '' '') \<le> m (line_of g)"
proof -
  from w obtain a b where g: "g = a @ w # b"
    by (auto simp: in_set_conv_decomp)
  have "line_of g = line_of a @ (w @ '' '') @ line_of b"
    by (simp add: g line_of_def)
  moreover have "m (w @ '' '') \<le> m ((w @ '' '') @ line_of b)"
    using mono unfolding monotone_width_def by blast
  moreover have "m ((w @ '' '') @ line_of b) \<le> m (line_of a @ ((w @ '' '') @ line_of b))"
    using mono unfolding monotone_width_def by blast
  ultimately show ?thesis by simp
qed

lemma length_monotone_width: "monotone_width (\<lambda>l. real (length l))"
  by (simp add: monotone_width_def)

section \<open>Recording: failure while the session is set up\<close>

text \<open>
  Claim C1 says that a failed start leaves the component not recording and not playing,
  and that the failure reaches the caller. \<^verbatim>\<open>startRecording\<close> sets
  \<^verbatim>\<open>isRecording\<close> before the first browser call and has no handler that would clear it:
  when \<^verbatim>\<open>canvas.captureStream\<close> throws on the freshly mounted component, the exception
  reaches the caller and the component is left with \<^verbatim>\<open>isRecording = true\<close>.
\<close>

theorem capture_throws_counterexample:
  "fst (startRecording (\<lambda>c. c = CaptureStream) initial_player) = Inl (Thrown CaptureStream)
   \<and> isRecording (snd (startRecording (\<lambda>c. c = CaptureStream) initial_player))"
  by (simp add: startRecording_def setupAudioContext_def initial_player_def Let_def)

text \<open>
  Claim C1, as the code has it. With the canvas attached, \<^verbatim>\<open>startRecording\<close> ends with
  the exception of the first browser call that throws, in the order of the calls: the
  four calls of the audio-graph setup (made only when no audio context exists yet and the
  audio element is attached), \<^verbatim>\<open>captureStream\<close>, the read of the recording destination
  (a \<^verbatim>\<open>TypeError\<close> when the graph was never built), \<^verbatim>\<open>new MediaStream\<close>,
  \<^verbatim>\<open>new MediaRecorder\<close> and \<^verbatim>\<open>recorder.start\<close>; it returns normally only when none of
  them throws. No exception is swallowed. Whenever \<^verbatim>\<open>startRecording\<close> ends with an
  exception, playback has not been started (\<^verbatim>\<open>isPlaying\<close> is what it was), the cursor is
  at \<open>(0, 0)\<close>, and \<^verbatim>\<open>isRecording\<close> is left \<^verbatim>\<open>true\<close>.
\<close>

theorem start_recording_failure:
  "(canvasRef s \<longrightarrow>
      fst (startRecording api s) =
        (if (\<not> audioContextRef s \<and> audioRef s) \<and> api NewAudioContext
           then Inl (Thrown NewAudioContext)
         else if (\<not> audioContextRef s \<and> audioRef s) \<and> api CreateMediaStreamDestination
           then Inl (Thrown CreateMediaStreamDestination)
         else if (\<not> audioContextRef s \<and> audioRef s) \<and> api CreateMediaElementSource
           then Inl (Thrown CreateMediaElementSource)
         else if (\<not> audioContextRef s \<and> audioRef s) \<and> api ConnectSource
           then Inl (Thrown ConnectSource)
         else if api CaptureStream then Inl (Thrown CaptureStream)
         else if \<not> destinationRef s \<and> (audioContextRef s \<or> \<not> audioRef s) then Inl NullDestination
         else if api NewMediaStream then Inl (Thrown NewMediaStream)
         else if api NewMediaRecorder then Inl (Thrown NewMediaRecorder)
         else if api RecorderStart then Inl (Thrown RecorderStart)
         else Inr ()))
   \<and> (canvasRef s \<and> (api CaptureStream \<or> api NewMediaStream \<or> api NewMediaRecorder \<or> api RecorderStart)
      \<longrightarrow> (\<exists>e. fst (startRecording api s) = Inl e))
   \<and> (fst (startRecording api s) = Inl e \<longrightarrow>
        isRecording (snd (startRecording api s))
        \<and> currentSceneIndex (snd (startRecording api s)) = 0
        \<and> currentDialogueIndex (snd (startRecording api s)) = 0
        \<and> isPlaying (snd (startRecording api s)) = isPlaying s)"
proof -
  have outcome: "canvasRef s \<longrightarrow>
      fst (startRecording api s) =
        (if (\<not> audioContextRef s \<and> audioRef s) \<and> api NewAudioContext
           then Inl (Thrown NewAudioContext)
         else if (\<not> audioContextRef s \<and> audioRef s) \<and> api CreateMediaStreamDestination
           then Inl (Thrown CreateMediaStreamDestination)
         else if (\<not> audioContextRef s \<and> audioRef s) \<and> api CreateMediaElementSource
           then Inl (Thrown CreateMediaElementSource)
         else if (\<not> audioContextRef s \<and> audioRef s) \<and> api ConnectSource
           then Inl (Thrown ConnectSource)
         else if api CaptureStream then Inl (Thrown CaptureStream)
         else if \<not> destinationRef s \<and> (audioContextRef s \<or> \<not> audioRef s) then Inl NullDestination
         else if api NewMediaStream then Inl (Thrown NewMediaStream)
         else if api NewMediaRecorder then Inl (Thrown NewMediaRecorder)
         else if api RecorderStart then Inl (Thrown RecorderStart)
         else Inr ())"
  proof (cases "\<not> audioContextRef s \<and> audioRef s")
    case True
    then show ?thesis
      by (simp add: startRecording_def setupAudioContext_def Let_def)
  next
    case False
    then show ?thesis
      by (auto simp: startRecording_def setupAudioContext_def Let_def)
  qed
  obtain r s2 where su: "setupAudioContext api
      (s\<lparr>isRecording := True, currentSceneIndex := 0, currentDialogueIndex := 0\<rparr>) = (r, s2)"
    by (cases "setupAudioContext api
      (s\<lparr>isRecording := True, currentSceneIndex := 0, currentDialogueIndex := 0\<rparr>)") auto
  from setupAudioContext_frame [OF su]
  have s2: "isRecording s2 \<and> currentSceneIndex s2 = 0 \<and> currentDialogueIndex s2 = 0
      \<and> isPlaying s2 = isPlaying s"
    by simp
  have surfaced: "canvasRef s \<and> (api CaptureStream \<or> api NewMediaStream \<or> api NewMediaRecorder \<or> api RecorderStart)
      \<longrightarrow> (\<exists>e. fst (startRecording api s) = Inl e)"
    using su by (auto simp: startRecording_def Let_def split: sum.splits)
  have state: "fst (startRecording api s) = Inl e \<longrightarrow>
        isRecording (snd (startRecording api s))
        \<and> currentSceneIndex (snd (startRecording api s)) = 0
        \<and> currentDialogueIndex (snd (startRecording api s)) = 0
        \<and> isPlaying (snd (startRecording api s)) = isPlaying s"
  proof
    assume f: "fst (startRecording api s) = Inl e"
    then have c: "canvasRef s"
      by (auto simp: startRecording_def split: if_splits)
    show "isRecording (snd (startRecording api s))
        \<and> currentSceneIndex (snd (startRecording api s)) = 0
        \<and> currentDialogueIndex (snd (startRecording api s)) = 0
        \<and> isPlaying (snd (startRecording api s)) = isPlaying s"
      using f c su s2
      by (auto simp: startRecording_def Let_def split: sum.splits if_splits)
  qed
  from outcome surfaced state show ?thesis by blast
qed
theorem start_recording_failure_witness:
  "fst (startRecording (\<lambda>c. c = NewMediaRecorder) initial_player) = Inl (Thrown NewMediaRecorder)
   \<and> isRecording (snd (startRecording (\<lambda>c. c = NewMediaRecorder) initial_player))
   \<and> \<not> isPlaying (snd (startRecording (\<lambda>c. c = NewMediaRecorder) initial_player))
   \<and> fst (startRecording (\<lambda>c. c = ConnectSource) initial_player) = Inl (Thrown ConnectSource)
   \<and> isRecording (snd (startRecording (\<lambda>c. c = ConnectSource) initial_player))
   \<and> \<not> isPlaying (snd (startRecording (\<lambda>c. c = ConnectSource) initial_player))"
proof -
  have i: "canvasRef initial_player" "\<not> audioContextRef initial_player" "audioRef initial_player"
    "\<not> isPlaying initial_player"
    by (simp_all add: initial_player_def)
  note a = start_recording_failure [of initial_player "\<lambda>c. c = NewMediaRecorder" "Thrown NewMediaRecorder"]
  note b = start_recording_failure [of initial_player "\<lambda>c. c = ConnectSource" "Thrown ConnectSource"]
  from a i have fa: "fst (startRecording (\<lambda>c. c = NewMediaRecorder) initial_player) = Inl (Thrown NewMediaRecorder)"
    by simp
  from b i have fb: "fst (startRecording (\<lambda>c. c = ConnectSource) initial_player) = Inl (Thrown ConnectSource)"
    by simp
  from a fa i have sa: "isRecording (snd (startRecording (\<lambda>c. c = NewMediaRecorder) initial_player))
     \<and> \<not> isPlaying (snd (startRecording (\<lambda>c. c = NewMediaRecorder) initial_player))"
    by simp
  from b fb i have sb: "isRecording (snd (startRecording (\<lambda>c. c = ConnectSource) initial_player))
     \<and> \<not> isPlaying (snd (startRecording (\<lambda>c. c = ConnectSource) initial_player))"
    by simp
  from fa fb sa sb show ?thesis by blast
qed
section \<open>Order of playback\<close>

text \<open>
  Claim C2 says that playback follows the scenes' \<^verbatim>\<open>order\<close> field, not the order in
  which the array stores them. The player indexes the array with the scene index and
  never sorts: for the two scenes stored with \<^verbatim>\<open>order\<close> 1 before \<^verbatim>\<open>order\<close> 0, the
  lines played belong to the scenes of \<^verbatim>\<open>order\<close> 1, 0, 0.
\<close>

theorem storage_order_counterexample:
  "map (\<lambda>p. order (two_scenes_swapped ! fst p))
     (fst (play_through two_scenes_swapped (initial_player\<lparr>isPlaying := True\<rparr>))) = [1, 0, 0]"
proof -
  have a: "isPlaying (initial_player\<lparr>isPlaying := True\<rparr>)"
    and b: "currentSceneIndex (initial_player\<lparr>isPlaying := True\<rparr>) < length two_scenes_swapped"
    by (simp_all add: initial_player_def two_scenes_swapped_def)
  have l: "length two_scenes_swapped = 2"
    "length (dialogues (two_scenes_swapped ! 0)) = 1"
    "length (dialogues (two_scenes_swapped ! Suc 0)) = 2"
    "order (two_scenes_swapped ! 0) = 1" "order (two_scenes_swapped ! Suc 0) = 0"
    by (simp_all add: two_scenes_swapped_def scene_with_def)
  have i: "currentSceneIndex (initial_player\<lparr>isPlaying := True\<rparr>) = 0"
    "currentDialogueIndex (initial_player\<lparr>isPlaying := True\<rparr>) = 0"
    by (simp_all add: initial_player_def)
  have u: "[0 ..< 2] = [0, 1::nat]" "[0 ..< 1] = [0::nat]" "[Suc 0 ..< 2] = [1::nat]"
    by (simp_all add: upt_rec)
  from play_through_from [OF a b]
  have "fst (play_through two_scenes_swapped (initial_player\<lparr>isPlaying := True\<rparr>))
      = [(0, 0), (Suc 0, 0), (Suc 0, 1)]"
    unfolding i l u by (simp add: l u)
  then show ?thesis
    by (simp add: l)
qed

text \<open>
  Claim C2, as the code has it: an uninterrupted run from the start visits the scenes in
  array order and, within each scene, the lines in array order; with at least one scene
  it ends with \<^verbatim>\<open>isPlaying = false\<close>. The scene indices visited never decrease, so the
  lines are played in ascending \<^verbatim>\<open>order\<close> of their scenes whenever the array is stored
  in ascending \<^verbatim>\<open>order\<close>; and when every scene has at least one line, they are played
  in ascending \<^verbatim>\<open>order\<close> only if the array is stored so. For two scenes of two and one
  lines the run visits \<open>(0,0), (0,1), (1,0)\<close> and finishes.
\<close>

theorem playback_in_array_order:
  assumes "isPlaying s" and "currentSceneIndex s = 0" and "currentDialogueIndex s = 0"
  shows "fst (play_through scenes s) =
           concat (map (\<lambda>i. map (Pair i) [0 ..< length (dialogues (scenes ! i))]) [0 ..< length scenes])
         \<and> (scenes \<noteq> [] \<longrightarrow> \<not> isPlaying (snd (play_through scenes s)))
         \<and> sorted (map fst (fst (play_through scenes s)))
         \<and> (sorted_wrt (<) (map order scenes) \<longrightarrow>
              sorted (map (\<lambda>p. order (scenes ! fst p)) (fst (play_through scenes s))))
         \<and> (sorted (map order scenes) \<longrightarrow>
              sorted (map (\<lambda>p. order (scenes ! fst p)) (fst (play_through scenes s))))
         \<and> ((\<forall>sc \<in> set scenes. dialogues sc \<noteq> [])
              \<and> sorted (map (\<lambda>p. order (scenes ! fst p)) (fst (play_through scenes s)))
              \<longrightarrow> sorted (map order scenes))"
proof -
  let ?all = "concat (map (\<lambda>i. map (Pair i) [0 ..< length (dialogues (scenes ! i))]) [0 ..< length scenes])"
  have trace: "fst (play_through scenes s) = ?all"
    and fin: "scenes \<noteq> [] \<longrightarrow> \<not> isPlaying (snd (play_through scenes s))"
  proof -
    show "fst (play_through scenes s) = ?all"
    proof (cases "scenes = []")
      case True
      then have "play_through scenes s = ([], s)"
        by (subst play_through.simps) (simp add: sequencer_effect_def playNextDialogue_def)
      with True show ?thesis by simp
    next
      case False
      then have inr: "currentSceneIndex s < length scenes"
        using assms by simp
      from False have "[0 ..< length scenes] = 0 # [Suc 0 ..< length scenes]"
        by (simp add: upt_conv_Cons)
      then have "?all = map (Pair 0) [0 ..< length (dialogues (scenes ! 0))]
          @ concat (map (\<lambda>i. map (Pair i) [0 ..< length (dialogues (scenes ! i))]) [Suc 0 ..< length scenes])"
        by simp
      with play_through_from [OF assms(1) inr] assms show ?thesis
        by simp
    qed
    show "scenes \<noteq> [] \<longrightarrow> \<not> isPlaying (snd (play_through scenes s))"
    proof
      assume "scenes \<noteq> []"
      then have inr: "currentSceneIndex s < length scenes"
        using assms by simp
      from play_through_from [OF assms(1) inr] show "\<not> isPlaying (snd (play_through scenes s))"
        by blast
    qed
  qed
  have idx: "sorted (map fst (fst (play_through scenes s)))"
    unfolding trace by (rule visited_scenes_sorted) simp
  have range: "set (map fst (fst (play_through scenes s))) \<subseteq> {..< length scenes}"
    unfolding trace by auto
  have ord: "sorted (map order scenes) \<longrightarrow>
      sorted (map (\<lambda>p. order (scenes ! fst p)) (fst (play_through scenes s)))"
  proof
    assume asc: "sorted (map order scenes)"
    have mono: "order (scenes ! i) \<le> order (scenes ! j)"
      if "i \<le> j" and "j < length scenes" for i j
    proof -
      from asc that have "map order scenes ! i \<le> map order scenes ! j"
        by (intro sorted_nth_mono) simp_all
      with that show ?thesis by simp
    qed
    have "sorted_wrt (\<lambda>i j. order (scenes ! i) \<le> order (scenes ! j)) (map fst (fst (play_through scenes s)))"
    proof (rule sorted_wrt_mono_rel [OF _ idx])
      fix i j
      assume "i \<in> set (map fst (fst (play_through scenes s)))"
        and "j \<in> set (map fst (fst (play_through scenes s)))" and "i \<le> j"
      with range mono show "order (scenes ! i) \<le> order (scenes ! j)"
        by auto
    qed
    then show "sorted (map (\<lambda>p. order (scenes ! fst p)) (fst (play_through scenes s)))"
      by (simp add: sorted_wrt_map)
  qed
  have strict: "sorted_wrt (<) (map order scenes) \<longrightarrow>
      sorted (map (\<lambda>p. order (scenes ! fst p)) (fst (play_through scenes s)))"
    using ord strict_sorted_imp_sorted by blast
  have conv: "(\<forall>sc \<in> set scenes. dialogues sc \<noteq> [])
      \<and> sorted (map (\<lambda>p. order (scenes ! fst p)) (fst (play_through scenes s)))
      \<longrightarrow> sorted (map order scenes)"
  proof
    assume h: "(\<forall>sc \<in> set scenes. dialogues sc \<noteq> [])
      \<and> sorted (map (\<lambda>p. order (scenes ! fst p)) (fst (play_through scenes s)))"
    then have lines: "\<forall>i \<in> set [0 ..< length scenes]. 0 < length (dialogues (scenes ! i))"
      by simp
    from h have "sorted (map (\<lambda>p. order (scenes ! fst p)) ?all)"
      unfolding trace by blast
    from visited_orders_sorted_conv [of "\<lambda>i. order (scenes ! i)"
        "\<lambda>i. length (dialogues (scenes ! i))" "[0 ..< length scenes]", OF this lines]
    have "sorted (map (\<lambda>i. order (scenes ! i)) [0 ..< length scenes])"
      by (simp add: sorted_wrt_map)
    moreover have "map (\<lambda>i. order (scenes ! i)) [0 ..< length scenes] = map order scenes"
      by (rule nth_equalityI) simp_all
    ultimately show "sorted (map order scenes)"
      by simp
  qed
  from trace fin idx strict ord conv show ?thesis by blast
qed

theorem playback_in_array_order_witness:
  "fst (play_through two_scenes (initial_player\<lparr>isPlaying := True\<rparr>)) = [(0, 0), (0, 1), (1, 0)]
   \<and> \<not> isPlaying (snd (play_through two_scenes (initial_player\<lparr>isPlaying := True\<rparr>)))
   \<and> sorted (map (\<lambda>p. order (two_scenes ! fst p))
        (fst (play_through two_scenes (initial_player\<lparr>isPlaying := True\<rparr>))))
   \<and> sorted (map order two_scenes)"
proof -
  have a: "isPlaying (initial_player\<lparr>isPlaying := True\<rparr>)"
    and b: "currentSceneIndex (initial_player\<lparr>isPlaying := True\<rparr>) = 0"
    and c: "currentDialogueIndex (initial_player\<lparr>isPlaying := True\<rparr>) = 0"
    by (simp_all add: initial_player_def)
  have l: "length two_scenes = 2" "length (dialogues (two_scenes ! 0)) = 2"
    "length (dialogues (two_scenes ! Suc 0)) = 1" "two_scenes \<noteq> []"
    by (simp_all add: two_scenes_def scene_with_def)
  have o: "sorted_wrt (<) (map order two_scenes)"
    by (simp add: two_scenes_def scene_with_def)
  have u: "[0 ..< 2] = [0, 1::nat]" "[0 ..< 1] = [0::nat]"
    by (simp_all add: upt_rec)
  note run = playback_in_array_order [OF a b c, of two_scenes]
  from run have "fst (play_through two_scenes (initial_player\<lparr>isPlaying := True\<rparr>)) =
      concat (map (\<lambda>i. map (Pair i) [0 ..< length (dialogues (two_scenes ! i))]) [0 ..< length two_scenes])"
    by blast
  then have visited: "fst (play_through two_scenes (initial_player\<lparr>isPlaying := True\<rparr>))
      = [(0, 0), (0, 1), (1, 0)]"
    by (simp add: l u)
  from run l have finished: "\<not> isPlaying (snd (play_through two_scenes (initial_player\<lparr>isPlaying := True\<rparr>)))"
    by blast
  from run o have ascending: "sorted (map (\<lambda>p. order (two_scenes ! fst p))
        (fst (play_through two_scenes (initial_player\<lparr>isPlaying := True\<rparr>))))"
    by blast
  have lines: "\<forall>sc \<in> set two_scenes. dialogues sc \<noteq> []"
    by (simp add: two_scenes_def scene_with_def)
  from run lines ascending have stored: "sorted (map order two_scenes)"
    by blast
  from visited finished ascending stored show ?thesis
    by (intro conjI)
qed

text \<open>
  A scene without lines is passed over without a line being played, which is why the
  converse needs every scene to have a line: stored with \<^verbatim>\<open>order\<close> 1 before
  \<^verbatim>\<open>order\<close> 0, where the first scene has no line, the run plays the single line of the
  second scene only.
\<close>

lemma silent_scene_passed_over:
  "fst (play_through silent_scene_first (initial_player\<lparr>isPlaying := True\<rparr>)) = [(1, 0)]
   \<and> map order silent_scene_first = [1, 0]"
proof -
  have a: "isPlaying (initial_player\<lparr>isPlaying := True\<rparr>)"
    and b: "currentSceneIndex (initial_player\<lparr>isPlaying := True\<rparr>) < length silent_scene_first"
    by (simp_all add: initial_player_def silent_scene_first_def)
  have l: "length silent_scene_first = 2"
    "length (dialogues (silent_scene_first ! 0)) = 0"
    "length (dialogues (silent_scene_first ! Suc 0)) = 1"
    by (simp_all add: silent_scene_first_def scene_with_def)
  have i: "currentSceneIndex (initial_player\<lparr>isPlaying := True\<rparr>) = 0"
    "currentDialogueIndex (initial_player\<lparr>isPlaying := True\<rparr>) = 0"
    by (simp_all add: initial_player_def)
  have u: "[0 ..< 0] = ([]::nat list)" "[0 ..< 1] = [0::nat]" "[Suc 0 ..< 2] = [1::nat]"
    by (simp_all add: upt_rec)
  from play_through_from [OF a b]
  have "fst (play_through silent_scene_first (initial_player\<lparr>isPlaying := True\<rparr>)) = [(Suc 0, 0)]"
    unfolding i l u by (simp add: l u)
  moreover have "map order silent_scene_first = [1, 0]"
    by (simp add: silent_scene_first_def scene_with_def)
  ultimately show ?thesis by simp
qed

section \<open>Pause and pending callbacks\<close>

text \<open>
  Claim C3 says that nothing moves the cursor while \<^verbatim>\<open>isPlaying\<close> is false and that a
  callback firing after a pause does nothing. The evaluation below follows the code on
  two scenes of two and one silent lines. Playing at \<open>(0, 0)\<close>, the effect sets the
  dwell timer; the pause click clears \<^verbatim>\<open>isPlaying\<close>; the timer then runs
  \<^verbatim>\<open>handleDialogueEnd\<close> of the render that set it, in which \<^verbatim>\<open>isPlaying\<close> is still true,
  and the dialogue index becomes 1 while paused. When play is clicked again before the
  timer fires, the effect sets a second dwell timer for the same line, and the two
  timers together move the cursor from \<open>(0, 0)\<close> to \<open>(0, 2)\<close>, past line 1. Likewise at
  \<open>(0, 2)\<close> the scene timer, whose callback never reads \<^verbatim>\<open>isPlaying\<close>, moves the paused
  cursor to scene 1.
\<close>

theorem stale_callback_after_pause:
  "sequencer_effect two_scenes (initial_player\<lparr>isPlaying := True\<rparr>)
     = Some (DwellTimer 2000 (initial_player\<lparr>isPlaying := True\<rparr>))
   \<and> click_playPause (initial_player\<lparr>isPlaying := True\<rparr>) = initial_player
   \<and> fire two_scenes (DwellTimer 2000 (initial_player\<lparr>isPlaying := True\<rparr>)) initial_player
     = initial_player\<lparr>currentDialogueIndex := 1\<rparr>
   \<and> fire two_scenes (DwellTimer 2000 (initial_player\<lparr>isPlaying := True\<rparr>))
       (fire two_scenes (DwellTimer 2000 (initial_player\<lparr>isPlaying := True\<rparr>))
         (click_playPause initial_player))
     = initial_player\<lparr>currentDialogueIndex := 2, isPlaying := True\<rparr>
   \<and> sequencer_effect two_scenes (initial_player\<lparr>currentDialogueIndex := 2, isPlaying := True\<rparr>)
     = Some (SceneTimer (initial_player\<lparr>currentDialogueIndex := 2, isPlaying := True\<rparr>))
   \<and> click_playPause (initial_player\<lparr>currentDialogueIndex := 2, isPlaying := True\<rparr>)
     = initial_player\<lparr>currentDialogueIndex := 2\<rparr>
   \<and> fire two_scenes (SceneTimer (initial_player\<lparr>currentDialogueIndex := 2, isPlaying := True\<rparr>))
       (initial_player\<lparr>currentDialogueIndex := 2\<rparr>)
     = initial_player\<lparr>currentSceneIndex := 1\<rparr>"
  by (simp add: sequencer_effect_def playNextDialogue_def click_playPause_def click_def togglePlay_def
      handleDialogueEnd_def sceneTimeout_def dwell_def truthy_def
      initial_player_def two_scenes_def scene_with_def silent_line_def)

section \<open>Rewind\<close>

text \<open>
  Claim C4 says that the rewind control resets the cursor to
  \<open>(0, 0, false, false)\<close>. Rewinding while playing leaves \<^verbatim>\<open>isPlaying\<close> true.
\<close>

theorem rewind_while_playing_counterexample:
  "isPlaying (click_rewind (initial_player\<lparr>currentSceneIndex := 1, currentDialogueIndex := 1, isPlaying := True\<rparr>))"
  by (simp add: click_rewind_def click_def rewindToStart_def initial_player_def)

text \<open>
  Claim C4, as the code has it: the rewind control sets the scene and dialogue indices
  to 0 and leaves \<^verbatim>\<open>isPlaying\<close> and \<^verbatim>\<open>isRecording\<close> as they are; while recording the
  control is disabled and changes nothing.
\<close>

theorem rewind_keeps_flags:
  "click_rewind s =
     (if isRecording s then s else s\<lparr>currentSceneIndex := 0, currentDialogueIndex := 0\<rparr>)
   \<and> isPlaying (click_rewind s) = isPlaying s
   \<and> isRecording (click_rewind s) = isRecording s
   \<and> (\<not> isRecording s \<longrightarrow>
        currentSceneIndex (click_rewind s) = 0 \<and> currentDialogueIndex (click_rewind s) = 0)"
  by (simp add: click_rewind_def click_def rewindToStart_def)

theorem rewind_keeps_flags_witness:
  "click_rewind (initial_player\<lparr>currentSceneIndex := 1, currentDialogueIndex := 1, isPlaying := True\<rparr>)
     = initial_player\<lparr>isPlaying := True\<rparr>"
  using rewind_keeps_flags [of "initial_player\<lparr>currentSceneIndex := 1, currentDialogueIndex := 1, isPlaying := True\<rparr>"]
  by (simp add: initial_player_def)

section \<open>Transport controls while recording\<close>

text \<open>
  Claim C5: in every state with \<^verbatim>\<open>isRecording = true\<close>, the rewind, play/pause and
  next-scene controls leave the whole state unchanged.
\<close>

theorem controls_disabled_while_recording:
  assumes "isRecording s"
  shows "click_rewind s = s \<and> click_playPause s = s \<and> click_nextScene scenes s = s"
  using assms by (simp add: click_rewind_def click_playPause_def click_nextScene_def click_def)

theorem controls_disabled_while_recording_witness:
  "click_rewind (initial_player\<lparr>currentSceneIndex := 1, isPlaying := True, isRecording := True\<rparr>)
     = initial_player\<lparr>currentSceneIndex := 1, isPlaying := True, isRecording := True\<rparr>
   \<and> click_playPause (initial_player\<lparr>currentSceneIndex := 1, isPlaying := True, isRecording := True\<rparr>)
     = initial_player\<lparr>currentSceneIndex := 1, isPlaying := True, isRecording := True\<rparr>
   \<and> click_nextScene two_scenes (initial_player\<lparr>isPlaying := True, isRecording := True\<rparr>)
     = initial_player\<lparr>isPlaying := True, isRecording := True\<rparr>"
proof -
  have r1: "isRecording (initial_player\<lparr>currentSceneIndex := 1, isPlaying := True, isRecording := True\<rparr>)"
    by simp
  have r2: "isRecording (initial_player\<lparr>isPlaying := True, isRecording := True\<rparr>)"
    by simp
  from controls_disabled_while_recording [OF r1, of two_scenes]
       controls_disabled_while_recording [OF r2, of two_scenes]
  show ?thesis by simp
qed

section \<open>The animation clock\<close>

text \<open>
  Claim C6 says that the time origin is reset at every change of the scene index, so
  that the elapsed time restarts from 0. With the first frame at 1000 ms and the next
  scene selected afterwards, the frame at 5000 ms has \<^verbatim>\<open>progress = 4000\<close>.
\<close>

theorem scene_change_keeps_origin_counterexample:
  "fst (render 1000 (initial_player\<lparr>isPlaying := True\<rparr>))
     = initial_player\<lparr>isPlaying := True, startTimeRef := 1000\<rparr>
   \<and> currentSceneIndex (click_nextScene two_scenes (initial_player\<lparr>isPlaying := True, startTimeRef := 1000\<rparr>)) = 1
   \<and> snd (render 5000 (click_nextScene two_scenes (initial_player\<lparr>isPlaying := True, startTimeRef := 1000\<rparr>))) = 4000"
  by (simp add: render_def click_nextScene_def click_def nextScene_def initial_player_def two_scenes_def)

text \<open>
  Claim C6, as the code has it: the time origin is set once, by the first frame that
  finds \<open>startTimeRef\<close> at 0, and that frame has elapsed time 0; once set it is never
  reset: a frame keeps it, and after the next-scene control, the scene timer, the rewind
  control or \<^verbatim>\<open>startRecording\<close> the elapsed time of a frame is still measured from it.
\<close>

theorem time_origin_set_once:
  "(startTimeRef s = 0 \<longrightarrow>
      startTimeRef (fst (render ts s)) = ts \<and> snd (render ts s) = 0)
   \<and> (startTimeRef s \<noteq> 0 \<longrightarrow>
      startTimeRef (fst (render ts s)) = startTimeRef s
      \<and> snd (render ts s) = ts - startTimeRef s
      \<and> snd (render ts (click_nextScene scenes s)) = ts - startTimeRef s
      \<and> snd (render ts (sceneTimeout scenes snap s)) = ts - startTimeRef s
      \<and> snd (render ts (click_rewind s)) = ts - startTimeRef s
      \<and> snd (render ts (snd (startRecording api s))) = ts - startTimeRef s)"
proof -
  have a: "startTimeRef (click_nextScene scenes s) = startTimeRef s"
    by (simp add: click_nextScene_def click_def nextScene_def)
  have b: "startTimeRef (click_rewind s) = startTimeRef s"
    by (simp add: click_rewind_def click_def rewindToStart_def)
  show ?thesis
    by (simp add: render_def Let_def a b sceneTimeout_startTimeRef startRecording_startTimeRef)
qed

theorem time_origin_set_once_witness:
  "snd (render 1000 (initial_player\<lparr>isPlaying := True\<rparr>)) = 0
   \<and> snd (render 5000 (click_nextScene two_scenes (initial_player\<lparr>isPlaying := True, startTimeRef := 1000\<rparr>))) = 4000"
  using time_origin_set_once [of "initial_player\<lparr>isPlaying := True\<rparr>" 1000]
    time_origin_set_once [of "initial_player\<lparr>isPlaying := True, startTimeRef := 1000\<rparr>" 5000 two_scenes]
  by (simp add: initial_player_def)

section \<open>The zoom and pan transform\<close>

text \<open>
  Claim C7 says that the scale is periodic with period \<open>5000 * pi\<close> ms. At
  \<open>t = 2500 * pi\<close> the scale is 1.05, and \<open>5000 * pi\<close> ms later it is 0.95.
\<close>

theorem half_period_counterexample:
  "transform_scale (2500 * pi) = 1.05 \<and> transform_scale (2500 * pi + 5000 * pi) = 0.95"
proof -
  have a: "2500 * pi * 0.0002 = pi / 2" by simp
  have b: "(2500 * pi + 5000 * pi) * 0.0002 = 3 / 2 * pi" by simp
  have "sin (2500 * pi * 0.0002) = 1" unfolding a by simp
  moreover have "sin ((2500 * pi + 5000 * pi) * 0.0002) = - 1" unfolding b by (rule sin_3over2_pi)
  ultimately show ?thesis
    unfolding transform_scale_def by simp
qed

text \<open>
  Claim C7, as the code has it: for every elapsed time \<open>t \<ge> 0\<close> the scale is
  \<open>1.0 + 0.05 * sin (t * 0.0002)\<close> and the pan is \<open>20 * sin (t * 0.0001)\<close>; the scale lies
  in \<open>[0.95, 1.05]\<close>, is a function of \<open>t\<close> alone, and is periodic with period
  \<open>10000 * pi\<close> ms; after \<open>5000 * pi\<close> ms it is mirrored about 1.
\<close>

theorem animator_transform:
  assumes "0 \<le> t"
  shows "transform_scale t = 1.0 + 0.05 * sin (t * 0.0002)
         \<and> transform_panX t = 20 * sin (t * 0.0001)
         \<and> 0.95 \<le> transform_scale t \<and> transform_scale t \<le> 1.05
         \<and> transform_scale (t + 10000 * pi) = transform_scale t
         \<and> transform_scale (t + 5000 * pi) = 2 - transform_scale t"
proof -
  have f: "transform_scale t = 1.0 + 0.05 * sin (t * 0.0002)"
    and g: "transform_panX t = 20 * sin (t * 0.0001)"
    by (simp_all add: transform_scale_def transform_panX_def)
  define x where "x = sin (t * 0.0002)"
  have x: "- 1 \<le> x" "x \<le> 1"
    unfolding x_def by (rule sin_ge_minus_one, rule sin_le_one)
  have sx: "transform_scale t = 1 + x * 0.05"
    unfolding transform_scale_def x_def by simp
  have lo: "0.95 \<le> transform_scale t" and hi: "transform_scale t \<le> 1.05"
    unfolding sx using x by simp_all
  have e1: "(t + 10000 * pi) * 0.0002 = t * 0.0002 + 2 * pi"
    by (simp add: algebra_simps)
  have "sin ((t + 10000 * pi) * 0.0002) = sin (t * 0.0002)"
    unfolding e1 by (rule sin_periodic)
  then have per: "transform_scale (t + 10000 * pi) = transform_scale t"
    unfolding transform_scale_def by (rule arg_cong)
  have e2: "(t + 5000 * pi) * 0.0002 = t * 0.0002 + pi"
    by (simp add: algebra_simps)
  have "sin ((t + 5000 * pi) * 0.0002) = - x"
    unfolding e2 x_def by (rule sin_periodic_pi)
  then have "transform_scale (t + 5000 * pi) = 1 + (- x) * 0.05"
    unfolding transform_scale_def by simp
  with sx have anti: "transform_scale (t + 5000 * pi) = 2 - transform_scale t"
    by simp
  from f g lo hi per anti show ?thesis by blast
qed

theorem animator_transform_witness:
  "transform_scale 0 = 1 \<and> transform_panX 0 = 0 \<and> transform_scale (0 + 10000 * pi) = transform_scale 0"
proof -
  have z: "(0::real) \<le> 0" by simp
  from animator_transform [OF z] show ?thesis by simp
qed

section \<open>Dwell time of a silent line\<close>

text \<open>
  Claim C8: for a line without audio the sequencer sets a timer of
  \<open>max 2000 (50 * length text)\<close> milliseconds; the dwell time is never below 2000 ms and
  is monotone in the length of the text.
\<close>

theorem dwell_duration:
  assumes "currentSceneIndex s < length scenes"
    and "currentDialogueIndex s < length (dialogues (scenes ! currentSceneIndex s))"
    and "audioUrl (dialogues (scenes ! currentSceneIndex s) ! currentDialogueIndex s) = None"
  shows "playNextDialogue scenes s =
           Some (DwellTimer
             (max 2000 (50 * length (dialogue_text (dialogues (scenes ! currentSceneIndex s) ! currentDialogueIndex s))))
             s)
         \<and> 2000 \<le> dwell txt
         \<and> dwell txt = max 2000 (50 * length txt)
         \<and> (length txt \<le> length txt' \<longrightarrow> dwell txt \<le> dwell txt')"
proof -
  have "playNextDialogue scenes s =
           Some (DwellTimer
             (max 2000 (50 * length (dialogue_text (dialogues (scenes ! currentSceneIndex s) ! currentDialogueIndex s))))
             s)"
    using assms by (simp add: playNextDialogue_def dwell_def truthy_def Let_def mult.commute)
  moreover have "2000 \<le> dwell txt" and "dwell txt = max 2000 (50 * length txt)"
    by (simp_all add: dwell_def mult.commute)
  moreover have "length txt \<le> length txt' \<longrightarrow> dwell txt \<le> dwell txt'"
    unfolding dwell_def by auto
  ultimately show ?thesis by blast
qed

theorem dwell_duration_witness:
  "playNextDialogue two_scenes initial_player = Some (DwellTimer 2000 initial_player)
   \<and> dwell ''Another night.'' = 2000
   \<and> dwell ''Another night.'' \<le> dwell ''It is never simple.''"
proof -
  have 1: "currentSceneIndex initial_player < length two_scenes"
    by (simp add: initial_player_def two_scenes_def)
  have 2: "currentDialogueIndex initial_player
        < length (dialogues (two_scenes ! currentSceneIndex initial_player))"
    by (simp add: initial_player_def two_scenes_def scene_with_def)
  have 3: "audioUrl (dialogues (two_scenes ! currentSceneIndex initial_player)
        ! currentDialogueIndex initial_player) = None"
    by (simp add: initial_player_def two_scenes_def scene_with_def silent_line_def)
  have 4: "dialogue_text (dialogues (two_scenes ! currentSceneIndex initial_player)
        ! currentDialogueIndex initial_player) = ''Another night.''"
    by (simp add: initial_player_def two_scenes_def scene_with_def silent_line_def)
  from dwell_duration [OF 1 2 3, of "''Another night.''" "''It is never simple.''"] 4
  show ?thesis by simp
qed

section \<open>Greedy word wrap\<close>

text \<open>
  Claim C9 says that an emitted line is wider than the limit only when a single word
  alone is wider than the limit. Every line is emitted with the space appended after its
  last word, and is measured with it: with the width of a string being its length and a
  limit of 3, the text \<^verbatim>\<open>abc\<close> is emitted as the line \<^verbatim>\<open>abc\<close> plus a space, of width 4,
  although the word alone has width 3.
\<close>

theorem trailing_space_counterexample:
  "wrapText (\<lambda>l. real (length l)) ''abc'' 640 620 3 30 = [(''abc '', 640, 620)]
   \<and> 3 < real (length ''abc '') \<and> real (length ''abc'') \<le> 3"
  by (simp add: wrapText_def Let_def)

text \<open>
  Claim C9, as the code has it. The emitted lines split the words of the text, in order,
  into non-empty groups of whole words, each line being its words each followed by one
  space. A line measured this way is wider than the limit only if it holds a single
  word. For a width function that is monotone in string extension, a word that, with its
  space, is wider than the limit is alone on its line. A line is only flushed on
  overflow: it would be wider than the limit with the first word of the next line added.
  All lines are drawn at the same \<open>x\<close>, and the \<open>k\<close>-th line at \<open>y + k * lineHeight\<close>.
\<close>

theorem wrapText_greedy:
  "\<exists>groups.
      concat groups = split_space txt
    \<and> map fst (wrapText m txt x y mw lh) = map line_of groups
    \<and> (\<forall>g \<in> set groups. g \<noteq> [] \<and> (m (line_of g) \<le> mw \<or> length g = 1))
    \<and> (monotone_width m \<longrightarrow> (\<forall>g \<in> set groups. \<forall>w \<in> set g. mw < m (w @ '' '') \<longrightarrow> g = [w]))
    \<and> (\<forall>k. Suc k < length groups \<longrightarrow> mw < m (line_of (groups ! k @ [hd (groups ! Suc k)])))
    \<and> map (fst \<circ> snd) (wrapText m txt x y mw lh) = replicate (length groups) x
    \<and> map (snd \<circ> snd) (wrapText m txt x y mw lh) = map (\<lambda>k. y + real k * lh) [0 ..< length groups]"
proof -
  define groups where "groups = wrap_groups m mw (split_space txt) 0 [] []"
  have l0: "[] = line_of []" by (simp add: line_of_def)
  have len: "length (wrapText m txt x y mw lh) = length groups"
    unfolding wrapText_def groups_def by (rule wrap_loop_length)
  have c: "concat groups = split_space txt"
    unfolding groups_def by (simp add: wrap_groups_concat)
  have lines: "map fst (wrapText m txt x y mw lh) = map line_of groups"
    unfolding wrapText_def groups_def by (rule wrap_loop_lines [OF l0])
  have fit: "\<forall>g \<in> set groups. g \<noteq> [] \<and> (m (line_of g) \<le> mw \<or> length g = 1)"
    unfolding groups_def
    by (rule wrap_groups_fit) (simp_all add: line_of_def split_space_nonempty)
  have alone: "monotone_width m \<longrightarrow> (\<forall>g \<in> set groups. \<forall>w \<in> set g. mw < m (w @ '' '') \<longrightarrow> g = [w])"
  proof (intro impI ballI)
    fix g w
    assume mono: "monotone_width m" and g: "g \<in> set groups" and w: "w \<in> set g"
      and wide: "mw < m (w @ '' '')"
    from monotone_width_member [OF mono w] wide have "mw < m (line_of g)" by simp
    with fit g have "length g = 1" by auto
    with w show "g = [w]" by (cases g) auto
  qed
  have greedy: "\<forall>k. Suc k < length groups \<longrightarrow> mw < m (line_of (groups ! k @ [hd (groups ! Suc k)]))"
    unfolding groups_def by (rule wrap_groups_greedy [OF l0])
  have xs: "map (fst \<circ> snd) (wrapText m txt x y mw lh) = replicate (length groups) x"
    unfolding len [symmetric] wrapText_def by (rule wrap_loop_x)
  have ys: "map (snd \<circ> snd) (wrapText m txt x y mw lh) = map (\<lambda>k. y + real k * lh) [0 ..< length groups]"
    unfolding len [symmetric] wrapText_def by (rule wrap_loop_y)
  from c lines fit alone greedy xs ys show ?thesis by blast
qed

theorem wrapText_greedy_witness:
  "\<exists>groups.
      concat groups = [''hello'', ''to'', ''all'']
    \<and> map fst (wrapText (\<lambda>l. real (length l)) ''hello to all'' 640 620 5 30) = map line_of groups
    \<and> [''hello''] \<in> set groups"
proof -
  have sp: "split_space ''hello to all'' = [''hello'', ''to'', ''all'']"
    by simp
  from wrapText_greedy [of "''hello to all''" "\<lambda>l. real (length l)" 640 620 5 30]
  obtain groups where c: "concat groups = split_space ''hello to all''"
    and l: "map fst (wrapText (\<lambda>l. real (length l)) ''hello to all'' 640 620 5 30) = map line_of groups"
    and alone: "monotone_width (\<lambda>l. real (length l)) \<longrightarrow>
        (\<forall>g \<in> set groups. \<forall>w \<in> set g. 5 < real (length (w @ '' '')) \<longrightarrow> g = [w])"
    by blast
  have "''hello'' \<in> set (concat groups)"
    unfolding c sp by simp
  then obtain g where g: "g \<in> set groups" and w: "''hello'' \<in> set g"
    by auto
  have "5 < real (length (''hello'' @ '' ''))" by simp
  with alone length_monotone_width g w have "g = [''hello'']" by blast
  with g c l sp show ?thesis by auto
qed

section \<open>The next-scene control\<close>

text \<open>
  Claim C10: the next-scene control changes nothing but the scene index, which it
  increments by one; the dialogue index is not reset. At the last scene, beyond it, or
  with no scene at all, it changes nothing, so it never moves the scene index past
  \<open>length scenes - 1\<close>.
\<close>

theorem next_scene_frame:
  "currentDialogueIndex (click_nextScene scenes s) = currentDialogueIndex s
   \<and> isPlaying (click_nextScene scenes s) = isPlaying s
   \<and> isRecording (click_nextScene scenes s) = isRecording s
   \<and> currentSceneIndex (click_nextScene scenes s) =
       (if \<not> isRecording s \<and> int (currentSceneIndex s) < int (length scenes) - 1
        then currentSceneIndex s + 1 else currentSceneIndex s)
   \<and> (int (length scenes) - 1 \<le> int (currentSceneIndex s) \<longrightarrow> click_nextScene scenes s = s)
   \<and> (int (currentSceneIndex s) \<le> int (length scenes) - 1 \<longrightarrow>
        int (currentSceneIndex (click_nextScene scenes s)) \<le> int (length scenes) - 1)"
  by (simp add: click_nextScene_def click_def nextScene_def)

theorem next_scene_frame_witness:
  "click_nextScene two_scenes (initial_player\<lparr>currentDialogueIndex := 1, isPlaying := True\<rparr>)
     = initial_player\<lparr>currentSceneIndex := 1, currentDialogueIndex := 1, isPlaying := True\<rparr>
   \<and> click_nextScene two_scenes (initial_player\<lparr>currentSceneIndex := 1, currentDialogueIndex := 1\<rparr>)
     = initial_player\<lparr>currentSceneIndex := 1, currentDialogueIndex := 1\<rparr>
   \<and> click_nextScene [] initial_player = initial_player"
proof -
  note a = next_scene_frame [of two_scenes "initial_player\<lparr>currentDialogueIndex := 1, isPlaying := True\<rparr>"]
  note b = next_scene_frame [of two_scenes "initial_player\<lparr>currentSceneIndex := 1, currentDialogueIndex := 1\<rparr>"]
  note c = next_scene_frame [of "[]" initial_player]
  have l: "length two_scenes = 2" by (simp add: two_scenes_def)
  have 1: "click_nextScene two_scenes (initial_player\<lparr>currentSceneIndex := 1, currentDialogueIndex := 1\<rparr>)
     = initial_player\<lparr>currentSceneIndex := 1, currentDialogueIndex := 1\<rparr>"
    using b l by simp
  have 2: "click_nextScene [] initial_player = initial_player"
    using c by simp
  have 3: "click_nextScene two_scenes (initial_player\<lparr>currentDialogueIndex := 1, isPlaying := True\<rparr>)
     = initial_player\<lparr>currentSceneIndex := 1, currentDialogueIndex := 1, isPlaying := True\<rparr>"
    by (simp add: click_nextScene_def click_def nextScene_def initial_player_def l)
  from 1 2 3 show ?thesis by simp
qed

end
